theory Spec2Isabelle
  imports Complex_Main "HOL-Library.Multiset" "HOL-Library.Log_Nat"
begin

section \<open>Python lists indexed by integers\<close>

text \<open>
  The program indexes lists with Python integers.  A negative index counts from the end
  of the list, and an index outside the list raises \<open>IndexError\<close>.  Both are part of
  the model: every read and write of a list cell goes through \<open>py_index\<close>.
\<close>

datatype py_error = IndexError

definition py_index :: "'a list \<Rightarrow> int \<Rightarrow> py_error + nat" where
  "py_index xs k =
     (let n = int (length xs); k' = (if k < 0 then k + n else k)
      in if 0 \<le> k' \<and> k' < n then Inr (nat k') else Inl IndexError)"

definition py_get :: "'a list \<Rightarrow> int \<Rightarrow> py_error + 'a" where
  "py_get xs k = (case py_index xs k of Inl e \<Rightarrow> Inl e | Inr n \<Rightarrow> Inr (xs ! n))"

definition py_set :: "'a list \<Rightarrow> int \<Rightarrow> 'a \<Rightarrow> py_error + 'a list" where
  "py_set xs k v = (case py_index xs k of Inl e \<Rightarrow> Inl e | Inr n \<Rightarrow> Inr (xs[n := v]))"

text \<open>
  The tuple assignment \<open>xs[a], xs[b] = xs[b], xs[a]\<close>: the right-hand side is read
  first (\<open>xs[b]\<close>, then \<open>xs[a]\<close>), then \<open>xs[a]\<close> and \<open>xs[b]\<close> are written in that order.
\<close>

definition py_swap :: "'a list \<Rightarrow> int \<Rightarrow> int \<Rightarrow> py_error + 'a list" where
  "py_swap xs a b =
     (case py_get xs b of
        Inl e \<Rightarrow> Inl e
      | Inr vb \<Rightarrow>
          (case py_get xs a of
             Inl e \<Rightarrow> Inl e
           | Inr va \<Rightarrow>
               (case py_set xs a vb of
                  Inl e \<Rightarrow> Inl e
                | Inr xs1 \<Rightarrow> py_set xs1 b va)))"

section \<open>The QuickSort step generator\<close>

text \<open>
  The dataclass \<open>Step\<close>: a copy of the working array, the optional indices \<open>i\<close>, \<open>j\<close>
  and \<open>pivot_index\<close>, and the action string.  The selectors carry the prefix \<open>step_\<close>.
\<close>

datatype step = Step (step_array: "int list") (step_i: "int option") (step_j: "int option")
  (step_pivot_index: "int option") (step_action: string)

text \<open>
  A generator function is modelled by what it does when it is run to its end: the list of
  the Steps it yields, in order, and how it ends, with the value it returns or with the
  exception that stops it.  The working array \<open>arr\<close>, which the nested functions of
  \<open>quicksort_steps\<close> share and mutate, is passed in and returned.
\<close>

type_synonym 'a gen = "step list \<times> (py_error + 'a)"

text \<open>One iteration of the \<open>for j in range(lo, hi)\<close> loop of \<open>_partition\<close>.\<close>

definition partition_iter :: "int \<Rightarrow> int \<Rightarrow> int \<Rightarrow> int list \<times> int \<Rightarrow> (int list \<times> int) gen" where
  "partition_iter pivot hi j st =
     (case st of (arr, i) \<Rightarrow>
        let cmp = Step arr (Some i) (Some j) (Some hi) ''compare'' in
        (case py_get arr j of
           Inl e \<Rightarrow> ([cmp], Inl e)
         | Inr aj \<Rightarrow>
             if aj \<le> pivot then
               let i' = i + 1 in
               if i' \<noteq> j then
                 (case py_swap arr i' j of
                    Inl e \<Rightarrow> ([cmp], Inl e)
                  | Inr arr' \<Rightarrow>
                      ([cmp, Step arr' (Some i') (Some j) (Some hi) ''swap''], Inr (arr', i')))
               else ([cmp], Inr (arr, i'))
             else ([cmp], Inr (arr, i))))"

fun partition_loop :: "int \<Rightarrow> int \<Rightarrow> int list \<Rightarrow> int list \<times> int \<Rightarrow> (int list \<times> int) gen" where
  "partition_loop pivot hi [] st = ([], Inr st)"
| "partition_loop pivot hi (j # js) st =
     (case partition_iter pivot hi j st of
        (ss, Inl e) \<Rightarrow> (ss, Inl e)
      | (ss, Inr st') \<Rightarrow>
          (case partition_loop pivot hi js st' of (ss', r) \<Rightarrow> (ss @ ss', r)))"

text \<open>\<open>_partition(lo, hi)\<close>; \<open>range(lo, hi)\<close> is the list \<open>[lo..hi - 1]\<close>.\<close>

definition inner_partition :: "int \<Rightarrow> int \<Rightarrow> int list \<Rightarrow> (int list \<times> int) gen" where
  "inner_partition lo hi arr =
     (case py_get arr hi of
        Inl e \<Rightarrow> ([], Inl e)
      | Inr pivot \<Rightarrow>
          let i = lo - 1;
              announce = Step arr None None (Some hi) ''pivot'' in
          (case partition_loop pivot hi [lo..hi - 1] (arr, i) of
             (ss, Inl e) \<Rightarrow> (announce # ss, Inl e)
           | (ss, Inr (arr1, i1)) \<Rightarrow>
               if i1 + 1 \<noteq> hi then
                 (case py_swap arr1 (i1 + 1) hi of
                    Inl e \<Rightarrow> (announce # ss, Inl e)
                  | Inr arr2 \<Rightarrow>
                      (announce # ss @ [Step arr2 (Some (i1 + 1)) (Some hi) (Some hi) ''partition''],
                       Inr (arr2, i1 + 1)))
               else (announce # ss, Inr (arr1, i1 + 1))))"

lemma partition_iter_bound:
  "partition_iter pivot hi j (arr, i) = (ss, Inr (arr', i')) \<Longrightarrow> i \<le> i' \<and> i' \<le> i + 1"
  by (auto simp: partition_iter_def Let_def split: sum.splits if_splits)

lemma partition_loop_bound:
  "partition_loop pivot hi js (arr, i) = (ss, Inr (arr', i')) \<Longrightarrow>
     i \<le> i' \<and> i' \<le> i + int (length js)"
proof (induction js arbitrary: arr i ss)
  case Nil
  then show ?case by simp
next
  case (Cons j js)
  from Cons.prems obtain s1 a1 i1 s2 where
    it: "partition_iter pivot hi j (arr, i) = (s1, Inr (a1, i1))" and
    lp: "partition_loop pivot hi js (a1, i1) = (s2, Inr (arr', i'))"
    by (auto split: prod.splits sum.splits)
  from partition_iter_bound[OF it] Cons.IH[OF lp] show ?case by simp
qed

lemma inner_partition_bound:
  assumes "inner_partition lo hi arr = (ss, Inr (arr', p))" and "lo \<le> hi"
  shows "lo \<le> p \<and> p \<le> hi"
proof -
  from assms(1) obtain pivot s1 a1 i1 where
    lp: "partition_loop pivot hi [lo..hi - 1] (arr, lo - 1) = (s1, Inr (a1, i1))" and
    p: "p = i1 + 1"
    by (auto simp: inner_partition_def Let_def split: sum.splits prod.splits if_splits)
  from partition_loop_bound[OF lp] assms(2) p show ?thesis by simp
qed

text \<open>\<open>_quicksort(lo, hi)\<close>.\<close>

function inner_quicksort :: "int \<Rightarrow> int \<Rightarrow> int list \<Rightarrow> (int list) gen" where
  "inner_quicksort lo hi arr =
     (if lo < hi then
        (case inner_partition lo hi arr of
           (s1, Inl e) \<Rightarrow> (s1, Inl e)
         | (s1, Inr (arr1, p)) \<Rightarrow>
             (case inner_quicksort lo (p - 1) arr1 of
                (s2, Inl e) \<Rightarrow> (s1 @ s2, Inl e)
              | (s2, Inr arr2) \<Rightarrow>
                  (case inner_quicksort (p + 1) hi arr2 of (s3, r) \<Rightarrow> (s1 @ s2 @ s3, r))))
      else ([], Inr arr))"
  by pat_completeness auto
termination
  apply (relation "measure (\<lambda>(lo, hi, arr). nat (hi - lo))")
    apply simp
   apply (auto dest: inner_partition_bound[OF sym])
  done

declare inner_quicksort.simps [simp del]

text \<open>
  \<open>quicksort_steps(data)\<close>: the working copy \<open>arr = data[:]\<close>, the recursion over the
  whole array when it is not empty, and the final \<open>done\<close> Step.
\<close>

definition quicksort_steps :: "int list \<Rightarrow> unit gen" where
  "quicksort_steps data =
     (let arr = data in
      if arr \<noteq> [] then
        (case inner_quicksort 0 (int (length arr) - 1) arr of
           (ss, Inl e) \<Rightarrow> (ss, Inl e)
         | (ss, Inr arr') \<Rightarrow> (ss @ [Step arr' None None None ''done''], Inr ()))
      else ([Step arr None None None ''done''], Inr ()))"


section \<open>Utilities\<close>

text \<open>\<open>is_sorted(arr)\<close>: \<open>all(arr[i] <= arr[i + 1] for i in range(len(arr) - 1))\<close>.\<close>

definition is_sorted :: "int list \<Rightarrow> bool" where
  "is_sorted arr = list_all (\<lambda>i. arr ! i \<le> arr ! (i + 1)) [0..<length arr - 1]"

text \<open>
  \<open>new_array(n)\<close>: the values \<open>range(10, 10 + n * 5, 5)\<close>, shuffled.  The permutation
  that \<open>random.shuffle\<close> draws is the parameter \<open>shuffle\<close>.
\<close>

definition new_array :: "nat \<Rightarrow> (int list \<Rightarrow> int list) \<Rightarrow> int list" where
  "new_array n shuffle = shuffle (map (\<lambda>k. 10 + 5 * int k) [0..<n])"

section \<open>Floating-point time\<close>

text \<open>
  Times are Python floats.  A finite float is a rational number, and an arithmetic
  operation on floats is the exact operation followed by a rounding.  The rounding is the
  parameter \<open>rnd\<close> of the functions that compute with times: \<open>round_double\<close> is the
  rounding of IEEE binary64 (to the nearest value with a 53-bit significand, ties to the
  even significand; the exponent range is not bounded, so overflow and subnormal numbers
  are outside the model), and the identity is exact arithmetic.
\<close>

definition pow2 :: "int \<Rightarrow> rat" where
  "pow2 k = (if 0 \<le> k then 2 ^ nat k else 1 / 2 ^ nat (- k))"

definition half_even :: "rat \<Rightarrow> int" where
  "half_even m =
     (let f = \<lfloor>m\<rfloor>; r = m - of_int f
      in if r < 1 / 2 then f else if 1 / 2 < r then f + 1 else if even f then f else f + 1)"

definition round_double :: "rat \<Rightarrow> rat" where
  "round_double x =
     (if x = 0 then 0
      else
        let (p, q) = quotient_of \<bar>x\<bar>;
            e0 = bitlen p - bitlen q;
            e = (if pow2 e0 \<le> \<bar>x\<bar> then e0 else e0 - 1);
            u = pow2 (e - 52)
        in sgn x * of_int (half_even (\<bar>x\<bar> / u)) * u)"

section \<open>Game state\<close>

text \<open>The dataclass \<open>SideState\<close>.\<close>

record side_state =
  arr :: "int list"
  start_time :: rat
  finish_time :: "rat option"
  moves :: int
  selected :: "int option"

text \<open>
  The attributes of \<open>YouVsQuickSort\<close> that the update functions read and write.
  \<open>gen\<close> holds the Steps that the generator \<open>self._gen\<close> has still to yield: \<open>next\<close>
  takes the head, and raises \<open>StopIteration\<close> on the empty list.  \<open>clock\<close> and
  \<open>clock_reads\<close> stand for \<open>time.perf_counter\<close>: its \<open>k\<close>-th call returns \<open>clock k\<close>.
\<close>

record game =
  player :: side_state
  algo :: side_state
  gen :: "step list"
  current_step :: "step option"
  algo_step_timer :: rat
  last_step_time :: rat
  paused_algo :: bool
  clock :: "nat \<Rightarrow> rat"
  clock_reads :: nat

definition perf_counter :: "game \<Rightarrow> rat \<times> game" where
  "perf_counter s = (clock s (clock_reads s), s\<lparr>clock_reads := Suc (clock_reads s)\<rparr>)"

definition ALGO_STEPS_PER_SEC :: rat where
  "ALGO_STEPS_PER_SEC = 24"

text \<open>
  The state that \<open>reset\<close> builds from \<open>base = new_array(self.size)\<close>: both sides get a
  copy of \<open>base\<close> and a clock reading, and the generator is created over the algorithm
  side's copy.
\<close>

definition fresh :: "(nat \<Rightarrow> rat) \<Rightarrow> nat \<Rightarrow> int list \<Rightarrow> game" where
  "fresh clk k base =
     \<lparr>player = \<lparr>arr = base, start_time = clk k, finish_time = None, moves = 0, selected = None\<rparr>,
      algo = \<lparr>arr = base, start_time = clk (Suc k), finish_time = None, moves = 0, selected = None\<rparr>,
      gen = fst (quicksort_steps base),
      current_step = None,
      algo_step_timer = 0,
      last_step_time = 0,
      paused_algo = False,
      clock = clk,
      clock_reads = Suc (Suc k)\<rparr>"

definition reset :: "int list \<Rightarrow> game \<Rightarrow> game" where
  "reset base s = fresh (clock s) (clock_reads s) base"

text \<open>\<open>__init__\<close> ends with \<open>reset\<close>; no clock reading precedes it.\<close>

definition init :: "(nat \<Rightarrow> rat) \<Rightarrow> int list \<Rightarrow> game" where
  "init clk base = fresh clk 0 base"

section \<open>Events\<close>

text \<open>
  \<open>_index_at_pos\<close>.  The geometry of the panel belongs to the presentation: the argument
  \<open>hit\<close> is \<open>None\<close> when the position is outside the inner rectangle, and otherwise
  holds \<open>int(rel_x // w)\<close>.  The check for the empty array and the clamp to
  \<open>0..n - 1\<close> are the source's.
\<close>

definition index_at_pos :: "int list \<Rightarrow> int option \<Rightarrow> int option" where
  "index_at_pos xs hit =
     (case hit of
        None \<Rightarrow> None
      | Some idx \<Rightarrow>
          let n = int (length xs) in
          if n = 0 then None else Some (max 0 (min (n - 1) idx)))"

definition handle_click :: "int option \<Rightarrow> game \<Rightarrow> py_error + game" where
  "handle_click hit s =
     (case index_at_pos (arr (player s)) hit of
        None \<Rightarrow> Inr s
      | Some idx \<Rightarrow>
          if finish_time (player s) \<noteq> None then Inr s
          else
            (case selected (player s) of
               None \<Rightarrow> Inr (s\<lparr>player := (player s)\<lparr>selected := Some idx\<rparr>\<rparr>)
             | Some sel \<Rightarrow>
                 if idx \<noteq> sel then
                   (case py_swap (arr (player s)) sel idx of
                      Inl e \<Rightarrow> Inl e
                    | Inr xs \<Rightarrow>
                        let s1 = s\<lparr>player := (player s)\<lparr>arr := xs, moves := moves (player s) + 1\<rparr>\<rparr>;
                            s2 = (if is_sorted (arr (player s1)) \<and> finish_time (player s1) = None
                                  then (case perf_counter s1 of
                                          (t, s') \<Rightarrow> s'\<lparr>player := (player s')\<lparr>finish_time := Some t\<rparr>\<rparr>)
                                  else s1)
                        in Inr (s2\<lparr>player := (player s2)\<lparr>selected := None\<rparr>\<rparr>))
                 else Inr (s\<lparr>player := (player s)\<lparr>selected := None\<rparr>\<rparr>)))"

text \<open>
  The events that \<open>handle_events\<close> acts on within a session: a left mouse button press
  and the space key.  (\<open>R\<close> and the size keys start a new session with \<open>reset\<close>; escape,
  \<open>Q\<close> and the window's close button end the program.)
\<close>

datatype event = MouseDown "int option" | KeySpace

fun handle_event :: "event \<Rightarrow> game \<Rightarrow> py_error + game" where
  "handle_event (MouseDown hit) s = handle_click hit s"
| "handle_event KeySpace s = Inr (s\<lparr>paused_algo := \<not> paused_algo s\<rparr>)"

fun handle_events :: "event list \<Rightarrow> game \<Rightarrow> py_error + game" where
  "handle_events [] s = Inr s"
| "handle_events (e # es) s =
     (case handle_event e s of Inl err \<Rightarrow> Inl err | Inr s' \<Rightarrow> handle_events es s')"

section \<open>The pacing of the algorithm side\<close>

text \<open>
  The \<open>while\<close> loop of \<open>update_algo\<close>.  Every iteration takes a Step from the generator
  or leaves the loop, so the recursion is on the Steps that are left.
\<close>

function algo_loop :: "(rat \<Rightarrow> rat) \<Rightarrow> rat \<Rightarrow> game \<Rightarrow> game" where
  "algo_loop rnd step_interval s =
     (if algo_step_timer s \<ge> step_interval then
        let s1 = s\<lparr>algo_step_timer := rnd (algo_step_timer s - step_interval)\<rparr> in
        (case gen s1 of
           [] \<Rightarrow>
             (if finish_time (algo s1) = None
              then (case perf_counter s1 of
                      (t, s') \<Rightarrow> s'\<lparr>algo := (algo s')\<lparr>finish_time := Some t\<rparr>\<rparr>)
              else s1)
         | step # rest \<Rightarrow>
             let s2 = s1\<lparr>gen := rest\<rparr>;
                 s3 = s2\<lparr>algo := (algo s2)\<lparr>arr := step_array step\<rparr>\<rparr>;
                 s4 = s3\<lparr>current_step := Some step\<rparr>;
                 s5 = (case perf_counter s4 of (t, s') \<Rightarrow> s'\<lparr>last_step_time := t\<rparr>);
                 s6 = (if step_action step = ''done'' \<and> finish_time (algo s5) = None
                       then (case perf_counter s5 of
                               (t, s') \<Rightarrow> s'\<lparr>algo := (algo s')\<lparr>finish_time := Some t\<rparr>\<rparr>)
                       else s5)
             in algo_loop rnd step_interval s6)
      else s)"
  by pat_completeness auto
termination
  by (relation "measure (\<lambda>(rnd, step_interval, s). length (gen s))")
    (auto simp: perf_counter_def split: if_splits)

declare algo_loop.simps [simp del]

definition update_algo :: "(rat \<Rightarrow> rat) \<Rightarrow> rat \<Rightarrow> game \<Rightarrow> game" where
  "update_algo rnd dt s =
     (if finish_time (algo s) \<noteq> None \<or> paused_algo s then s
      else
        let s1 = s\<lparr>algo_step_timer := rnd (algo_step_timer s + dt)\<rparr>;
            step_interval = rnd (1 / ALGO_STEPS_PER_SEC)
        in algo_loop rnd step_interval s1)"

text \<open>The check of \<open>run\<close> after \<open>update_algo\<close>: the player's finish time is captured.\<close>

definition finish_check :: "game \<Rightarrow> game" where
  "finish_check s =
     (if finish_time (player s) = None \<and> is_sorted (arr (player s))
      then (case perf_counter s of (t, s') \<Rightarrow> s'\<lparr>player := (player s')\<lparr>finish_time := Some t\<rparr>\<rparr>)
      else s)"

section \<open>The verdict\<close>

text \<open>
  \<open>draw\<close> computes the two elapsed times and, when both sides have finished, the text of
  the results overlay: \<open>PlayerWins\<close> for "You win!", \<open>AlgorithmWins\<close> for
  "QuickSort wins!" and \<open>Tie\<close> for the tie.  \<open>x or now\<close> is \<open>now\<close> when \<open>x\<close> is \<open>None\<close>,
  and also when \<open>x\<close> is the float zero.  The rendering calls are left out; the clock
  readings of \<open>draw\<close> are kept.
\<close>

datatype verdict = PlayerWins | AlgorithmWins | Tie

definition or_now :: "rat option \<Rightarrow> rat \<Rightarrow> rat" where
  "or_now x now = (case x of None \<Rightarrow> now | Some t \<Rightarrow> if t = 0 then now else t)"

definition draw :: "(rat \<Rightarrow> rat) \<Rightarrow> game \<Rightarrow> verdict option \<times> game" where
  "draw rnd s =
     (let s1 = (case current_step s of None \<Rightarrow> s | Some step \<Rightarrow> snd (perf_counter s));
          (now, s2) = perf_counter s1;
          p_time = rnd (or_now (finish_time (player s2)) now - start_time (player s2));
          a_time = rnd (or_now (finish_time (algo s2)) now - start_time (algo s2));
          overlay =
            (if finish_time (player s2) \<noteq> None \<and> finish_time (algo s2) \<noteq> None
             then Some (if p_time < a_time then PlayerWins
                        else if a_time < p_time then AlgorithmWins else Tie)
             else None)
      in (overlay, s2))"

section \<open>The main loop\<close>

text \<open>
  One pass of the loop of \<open>run\<close>: the events of the frame, \<open>update_algo\<close> with the
  frame's \<open>dt\<close>, the player's finish check, and \<open>draw\<close>.
\<close>

definition frame :: "(rat \<Rightarrow> rat) \<Rightarrow> event list \<times> rat \<Rightarrow> game \<Rightarrow> py_error + game" where
  "frame rnd f s =
     (case f of (events, dt) \<Rightarrow>
        (case handle_events events s of
           Inl err \<Rightarrow> Inl err
         | Inr s1 \<Rightarrow> Inr (snd (draw rnd (finish_check (update_algo rnd dt s1))))))"

fun run :: "(rat \<Rightarrow> rat) \<Rightarrow> (event list \<times> rat) list \<Rightarrow> game \<Rightarrow> py_error + game" where
  "run rnd [] s = Inr s"
| "run rnd (f # fs) s = (case frame rnd f s of Inl err \<Rightarrow> Inl err | Inr s' \<Rightarrow> run rnd fs s')"


section \<open>Correctness of the step generator\<close>

text \<open>
  Within the list, a position \<open>k\<close> with \<open>0 \<le> k < len\<close> is read and written without
  an error; \<open>exch\<close> is the list after the exchange of two such positions.
\<close>

definition exch :: "'a list \<Rightarrow> int \<Rightarrow> int \<Rightarrow> 'a list" where
  "exch xs a b = xs[nat a := xs ! nat b, nat b := xs ! nat a]"

lemma py_get_in_range:
  "0 \<le> k \<Longrightarrow> k < int (length xs) \<Longrightarrow> py_get xs k = Inr (xs ! nat k)"
  by (simp add: py_get_def py_index_def)

lemma py_set_in_range:
  "0 \<le> k \<Longrightarrow> k < int (length xs) \<Longrightarrow> py_set xs k v = Inr (xs[nat k := v])"
  by (simp add: py_set_def py_index_def)

lemma py_swap_in_range:
  "0 \<le> a \<Longrightarrow> a < int (length xs) \<Longrightarrow> 0 \<le> b \<Longrightarrow> b < int (length xs) \<Longrightarrow>
     py_swap xs a b = Inr (exch xs a b)"
  by (simp add: py_swap_def py_get_in_range py_set_in_range exch_def)

lemma length_exch [simp]: "length (exch xs a b) = length xs"
  by (simp add: exch_def)

lemma mset_exch:
  "0 \<le> a \<Longrightarrow> a < int (length xs) \<Longrightarrow> 0 \<le> b \<Longrightarrow> b < int (length xs) \<Longrightarrow>
     mset (exch xs a b) = mset xs"
  unfolding exch_def by (rule mset_swap) auto

lemma nth_exch:
  "0 \<le> a \<Longrightarrow> a < int (length xs) \<Longrightarrow> 0 \<le> b \<Longrightarrow> b < int (length xs) \<Longrightarrow> 0 \<le> k \<Longrightarrow>
     exch xs a b ! nat k = (if k = b then xs ! nat a else if k = a then xs ! nat b else xs ! nat k)"
  by (auto simp: exch_def nth_list_update)

definition emitted_ok :: "int list \<Rightarrow> step \<Rightarrow> bool" where
  "emitted_ok data s \<longleftrightarrow>
     mset (step_array s) = mset data \<and>
     (\<exists>h. step_pivot_index s = Some h \<and> 0 \<le> h \<and> h < int (length data) \<and>
        (step_action s = ''pivot'' \<and> step_i s = None \<and> step_j s = None \<or>
         (\<exists>a b. step_i s = Some a \<and> step_j s = Some b \<and> a < b \<and> b \<le> h \<and>
            (step_action s = ''compare'' \<and> - 1 \<le> a \<and> b < h \<or>
             step_action s = ''swap'' \<and> 0 \<le> a \<and> b < h \<or>
             step_action s = ''partition'' \<and> 0 \<le> a \<and> b = h))))"

definition part_inv :: "int list \<Rightarrow> int \<Rightarrow> int \<Rightarrow> int \<Rightarrow> int list \<Rightarrow> int \<Rightarrow> int \<Rightarrow> bool" where
  "part_inv xs0 lo hi pivot ys i j \<longleftrightarrow>
     mset ys = mset xs0 \<and> lo - 1 \<le> i \<and> i < j \<and>
     (\<forall>k. lo \<le> k \<and> k \<le> i \<longrightarrow> ys ! nat k \<le> pivot) \<and>
     (\<forall>k. i < k \<and> k < j \<longrightarrow> pivot < ys ! nat k) \<and>
     (\<forall>k. 0 \<le> k \<and> k < int (length xs0) \<and> (k < lo \<or> j \<le> k) \<longrightarrow> ys ! nat k = xs0 ! nat k) \<and>
     (\<lambda>k. ys ! nat k) ` {lo..hi} = (\<lambda>k. xs0 ! nat k) ` {lo..hi}"

lemma seg_vals_exch:
  assumes "0 \<le> lo" "hi < int (length xs)" "lo \<le> a" "a \<le> hi" "lo \<le> b" "b \<le> hi"
  shows "(\<lambda>k. exch xs a b ! nat k) ` {lo..hi} = (\<lambda>k. xs ! nat k) ` {lo..hi}"
proof -
  have nth: "\<And>k. 0 \<le> k \<Longrightarrow> exch xs a b ! nat k =
         (if k = b then xs ! nat a else if k = a then xs ! nat b else xs ! nat k)"
    using assms by (intro nth_exch) auto
  show ?thesis
  proof (intro equalityI subsetI)
    fix v assume "v \<in> (\<lambda>k. exch xs a b ! nat k) ` {lo..hi}"
    then obtain k where k: "lo \<le> k" "k \<le> hi" "v = exch xs a b ! nat k" by auto
    with assms nth[of k] show "v \<in> (\<lambda>k. xs ! nat k) ` {lo..hi}"
      by (auto split: if_splits)
  next
    fix v assume "v \<in> (\<lambda>k. xs ! nat k) ` {lo..hi}"
    then obtain k where k: "lo \<le> k" "k \<le> hi" "v = xs ! nat k" by auto
    define k' where "k' = (if k = b then a else if k = a then b else k)"
    have "lo \<le> k'" "k' \<le> hi" using k assms by (auto simp: k'_def)
    moreover have "exch xs a b ! nat k' = v"
      using nth[of k'] k assms by (auto simp: k'_def)
    ultimately show "v \<in> (\<lambda>k. exch xs a b ! nat k) ` {lo..hi}" by force
  qed
qed

lemma partition_iter_inv:
  assumes inv: "part_inv xs0 lo hi pivot ys i j"
    and rng: "0 \<le> lo" "lo \<le> j" "j < hi" "hi < int (length xs0)"
  shows "\<exists>ss xs' i'. partition_iter pivot hi j (ys, i) = (ss, Inr (xs', i')) \<and>
           part_inv xs0 lo hi pivot xs' i' (j + 1) \<and> (\<forall>s\<in>set ss. emitted_ok xs0 s)"
proof -
  from inv have ms: "mset ys = mset xs0" and i: "lo - 1 \<le> i" "i < j"
    and le: "\<And>k. lo \<le> k \<Longrightarrow> k \<le> i \<Longrightarrow> ys ! nat k \<le> pivot"
    and gt: "\<And>k. i < k \<Longrightarrow> k < j \<Longrightarrow> pivot < ys ! nat k"
    and fr: "\<And>k. 0 \<le> k \<Longrightarrow> k < int (length xs0) \<Longrightarrow> k < lo \<or> j \<le> k \<Longrightarrow> ys ! nat k = xs0 ! nat k"
    and sv: "(\<lambda>k. ys ! nat k) ` {lo..hi} = (\<lambda>k. xs0 ! nat k) ` {lo..hi}"
    by (auto simp: part_inv_def)
  from ms have len: "length ys = length xs0" by (rule mset_eq_length)
  let ?cmp = "Step ys (Some i) (Some j) (Some hi) ''compare''"
  have cmp_ok: "emitted_ok xs0 ?cmp"
    using ms i rng by (simp add: emitted_ok_def)
  have get: "py_get ys j = Inr (ys ! nat j)"
    using rng len by (intro py_get_in_range) auto
  show ?thesis
  proof (cases "ys ! nat j \<le> pivot")
    case False
    then have "partition_iter pivot hi j (ys, i) = ([?cmp], Inr (ys, i))"
      by (simp add: partition_iter_def get)
    moreover have "part_inv xs0 lo hi pivot ys i (j + 1)"
      unfolding part_inv_def
    proof (intro conjI allI impI)
      fix k assume "i < k \<and> k < j + 1"
      then show "pivot < ys ! nat k" using gt[of k] False by (cases "k = j") auto
    qed (use ms i le fr sv in auto)
    ultimately show ?thesis using cmp_ok by simp
  next
    case True
    show ?thesis
    proof (cases "i + 1 = j")
      case eq: True
      then have "partition_iter pivot hi j (ys, i) = ([?cmp], Inr (ys, i + 1))"
        using True by (simp add: partition_iter_def get)
      moreover have "part_inv xs0 lo hi pivot ys (i + 1) (j + 1)"
        unfolding part_inv_def
      proof (intro conjI allI impI)
        fix k assume "lo \<le> k \<and> k \<le> i + 1"
        then show "ys ! nat k \<le> pivot" using le[of k] True eq by (cases "k = j") auto
      qed (use ms i fr sv eq in auto)
      ultimately show ?thesis using cmp_ok by simp
    next
      case ne: False
      let ?xs' = "exch ys (i + 1) j"
      let ?sw = "Step ?xs' (Some (i + 1)) (Some j) (Some hi) ''swap''"
      have r: "0 \<le> i + 1" "i + 1 < int (length ys)" "0 \<le> j" "j < int (length ys)"
        using i rng len by auto
      have sw: "py_swap ys (i + 1) j = Inr ?xs'"
        using r by (intro py_swap_in_range)
      have ms': "mset ?xs' = mset xs0"
        using mset_exch[OF r] ms by simp
      have nth: "\<And>k. 0 \<le> k \<Longrightarrow> ?xs' ! nat k =
         (if k = j then ys ! nat (i + 1) else if k = i + 1 then ys ! nat j else ys ! nat k)"
        using r by (intro nth_exch) auto
      have "partition_iter pivot hi j (ys, i) = ([?cmp, ?sw], Inr (?xs', i + 1))"
        using True ne by (simp add: partition_iter_def get sw Let_def)
      moreover have "emitted_ok xs0 ?sw"
        using ms' i rng ne by (simp add: emitted_ok_def)
      moreover have "part_inv xs0 lo hi pivot ?xs' (i + 1) (j + 1)"
        unfolding part_inv_def
      proof (intro conjI allI impI)
        fix k assume k: "lo \<le> k \<and> k \<le> i + 1"
        then show "?xs' ! nat k \<le> pivot"
          using le[of k] True nth[of k] rng i ne by (auto split: if_splits)
      next
        fix k assume k: "i + 1 < k \<and> k < j + 1"
        then show "pivot < ?xs' ! nat k"
          using gt[of k] gt[of "i + 1"] nth[of k] rng i ne by (auto split: if_splits)
      next
        fix k assume k: "0 \<le> k \<and> k < int (length xs0) \<and> (k < lo \<or> j + 1 \<le> k)"
        then show "?xs' ! nat k = xs0 ! nat k"
          using fr[of k] nth[of k] rng i by (auto split: if_splits)
      next
        have "(\<lambda>k. ?xs' ! nat k) ` {lo..hi} = (\<lambda>k. ys ! nat k) ` {lo..hi}"
          using rng i len by (intro seg_vals_exch) auto
        then show "(\<lambda>k. ?xs' ! nat k) ` {lo..hi} = (\<lambda>k. xs0 ! nat k) ` {lo..hi}"
          using sv by simp
      qed (use ms' i in auto)
      ultimately show ?thesis using cmp_ok by simp
    qed
  qed
qed


lemma partition_loop_inv:
  assumes "part_inv xs0 lo hi pivot ys i j"
    and "0 \<le> lo" "lo \<le> j" "j \<le> hi" "hi < int (length xs0)"
  shows "\<exists>ss xs' i'. partition_loop pivot hi [j..hi - 1] (ys, i) = (ss, Inr (xs', i')) \<and>
           part_inv xs0 lo hi pivot xs' i' hi \<and> (\<forall>s\<in>set ss. emitted_ok xs0 s)"
  using assms
proof (induction "nat (hi - j)" arbitrary: j ys i)
  case 0
  then have "j = hi" by simp
  with 0 show ?case by simp
next
  case (Suc n)
  then have jlt: "j < hi" by simp
  then have up: "[j..hi - 1] = j # [j + 1..hi - 1]" by (simp add: upto_rec1)
  from partition_iter_inv[OF Suc.prems(1) Suc.prems(2) Suc.prems(3) jlt Suc.prems(5)]
  obtain s1 a1 i1 where
    it: "partition_iter pivot hi j (ys, i) = (s1, Inr (a1, i1))" and
    inv1: "part_inv xs0 lo hi pivot a1 i1 (j + 1)" and ok1: "\<forall>s\<in>set s1. emitted_ok xs0 s"
    by blast
  have "n = nat (hi - (j + 1))" using Suc.hyps(2) by simp
  from Suc.hyps(1)[OF this inv1] Suc.prems jlt
  obtain s2 a2 i2 where
    lp: "partition_loop pivot hi [j + 1..hi - 1] (a1, i1) = (s2, Inr (a2, i2))" and
    inv2: "part_inv xs0 lo hi pivot a2 i2 hi" and ok2: "\<forall>s\<in>set s2. emitted_ok xs0 s"
    by auto
  have "partition_loop pivot hi [j..hi - 1] (ys, i) = (s1 @ s2, Inr (a2, i2))"
    by (simp add: up it lp)
  with inv2 ok1 ok2 show ?case by auto
qed

definition part_post :: "int list \<Rightarrow> int \<Rightarrow> int \<Rightarrow> int list \<Rightarrow> int \<Rightarrow> bool" where
  "part_post xs0 lo hi ys p \<longleftrightarrow>
     mset ys = mset xs0 \<and> lo \<le> p \<and> p \<le> hi \<and>
     (\<forall>k. lo \<le> k \<and> k < p \<longrightarrow> ys ! nat k \<le> ys ! nat p) \<and>
     (\<forall>k. p < k \<and> k \<le> hi \<longrightarrow> ys ! nat p \<le> ys ! nat k) \<and>
     (\<forall>k. 0 \<le> k \<and> k < int (length xs0) \<and> (k < lo \<or> hi < k) \<longrightarrow> ys ! nat k = xs0 ! nat k) \<and>
     (\<lambda>k. ys ! nat k) ` {lo..hi} = (\<lambda>k. xs0 ! nat k) ` {lo..hi}"

lemma inner_partition_post:
  assumes rng: "0 \<le> lo" "lo \<le> hi" "hi < int (length xs0)"
    and ms0: "mset xs0 = mset data"
  shows "\<exists>ss ys p. inner_partition lo hi xs0 = (ss, Inr (ys, p)) \<and>
           part_post xs0 lo hi ys p \<and> (\<forall>s\<in>set ss. emitted_ok data s)"
proof -
  let ?pivot = "xs0 ! nat hi"
  let ?ann = "Step xs0 None None (Some hi) ''pivot''"
  have len0: "length xs0 = length data" using ms0 by (rule mset_eq_length)
  have ok_eq: "\<And>s. emitted_ok xs0 s = emitted_ok data s"
    by (simp add: emitted_ok_def ms0 len0)
  have get: "py_get xs0 hi = Inr ?pivot"
    using rng by (intro py_get_in_range) auto
  have ann_ok: "emitted_ok data ?ann"
    using rng ms0 len0 by (simp add: emitted_ok_def)
  have "part_inv xs0 lo hi ?pivot xs0 (lo - 1) lo"
    by (simp add: part_inv_def)
  from partition_loop_inv[OF this rng(1) _ rng(2) rng(3)]
  obtain ss a1 i1 where
    lp: "partition_loop ?pivot hi [lo..hi - 1] (xs0, lo - 1) = (ss, Inr (a1, i1))" and
    inv: "part_inv xs0 lo hi ?pivot a1 i1 hi" and ok: "\<forall>s\<in>set ss. emitted_ok data s"
    by (auto simp: ok_eq)
  from inv have ms: "mset a1 = mset xs0" and i: "lo - 1 \<le> i1" "i1 < hi"
    and le: "\<And>k. lo \<le> k \<Longrightarrow> k \<le> i1 \<Longrightarrow> a1 ! nat k \<le> ?pivot"
    and gt: "\<And>k. i1 < k \<Longrightarrow> k < hi \<Longrightarrow> ?pivot < a1 ! nat k"
    and fr: "\<And>k. 0 \<le> k \<Longrightarrow> k < int (length xs0) \<Longrightarrow> k < lo \<or> hi \<le> k \<Longrightarrow> a1 ! nat k = xs0 ! nat k"
    and sv: "(\<lambda>k. a1 ! nat k) ` {lo..hi} = (\<lambda>k. xs0 ! nat k) ` {lo..hi}"
    by (auto simp: part_inv_def)
  from ms have len: "length a1 = length xs0" by (rule mset_eq_length)
  have piv: "a1 ! nat hi = ?pivot" using fr[of hi] rng by simp
  show ?thesis
  proof (cases "i1 + 1 = hi")
    case True
    then have "inner_partition lo hi xs0 = (?ann # ss, Inr (a1, i1 + 1))"
      by (simp add: inner_partition_def get lp Let_def)
    moreover have "part_post xs0 lo hi a1 (i1 + 1)"
      unfolding part_post_def
    proof (intro conjI allI impI)
      fix k assume "lo \<le> k \<and> k < i1 + 1"
      then show "a1 ! nat k \<le> a1 ! nat (i1 + 1)" using le[of k] piv True by simp
    next
      fix k assume "i1 + 1 < k \<and> k \<le> hi"
      then show "a1 ! nat (i1 + 1) \<le> a1 ! nat k" using True by simp
    next
      fix k assume "0 \<le> k \<and> k < int (length xs0) \<and> (k < lo \<or> hi < k)"
      then show "a1 ! nat k = xs0 ! nat k" using fr[of k] by auto
    qed (use ms i sv in auto)
    ultimately show ?thesis using ann_ok ok by simp
  next
    case False
    let ?p = "i1 + 1"
    let ?a2 = "exch a1 ?p hi"
    let ?fin = "Step ?a2 (Some ?p) (Some hi) (Some hi) ''partition''"
    have r: "0 \<le> ?p" "?p < int (length a1)" "0 \<le> hi" "hi < int (length a1)"
      using i rng len by auto
    have sw: "py_swap a1 ?p hi = Inr ?a2"
      using r by (intro py_swap_in_range)
    have ms': "mset ?a2 = mset xs0"
      using mset_exch[OF r] ms by simp
    have nth: "\<And>k. 0 \<le> k \<Longrightarrow> ?a2 ! nat k =
         (if k = hi then a1 ! nat ?p else if k = ?p then a1 ! nat hi else a1 ! nat k)"
      using r by (intro nth_exch) auto
    have "inner_partition lo hi xs0 = (?ann # ss @ [?fin], Inr (?a2, ?p))"
      using False by (simp add: inner_partition_def get lp sw Let_def)
    moreover have "emitted_ok data ?fin"
      using ms' ms0 len0 i rng False by (simp add: emitted_ok_def)
    moreover have "part_post xs0 lo hi ?a2 ?p"
      unfolding part_post_def
    proof (intro conjI allI impI)
      fix k assume "lo \<le> k \<and> k < ?p"
      then show "?a2 ! nat k \<le> ?a2 ! nat ?p"
        using le[of k] piv nth[of k] nth[of ?p] rng i False by (auto split: if_splits)
    next
      fix k assume "?p < k \<and> k \<le> hi"
      then show "?a2 ! nat ?p \<le> ?a2 ! nat k"
        using gt[of k] gt[of ?p] piv nth[of k] nth[of ?p] rng i False
        by (auto split: if_splits)
    next
      fix k assume "0 \<le> k \<and> k < int (length xs0) \<and> (k < lo \<or> hi < k)"
      then show "?a2 ! nat k = xs0 ! nat k"
        using fr[of k] nth[of k] rng i by (auto split: if_splits)
    next
      have "(\<lambda>k. ?a2 ! nat k) ` {lo..hi} = (\<lambda>k. a1 ! nat k) ` {lo..hi}"
        using rng i len by (intro seg_vals_exch) auto
      then show "(\<lambda>k. ?a2 ! nat k) ` {lo..hi} = (\<lambda>k. xs0 ! nat k) ` {lo..hi}"
        using sv by simp
    qed (use ms' i in auto)
    ultimately show ?thesis using ann_ok ok by simp
  qed
qed

definition qs_post :: "int list \<Rightarrow> int \<Rightarrow> int \<Rightarrow> int list \<Rightarrow> bool" where
  "qs_post xs0 lo hi ys \<longleftrightarrow>
     mset ys = mset xs0 \<and>
     (\<forall>k. 0 \<le> k \<and> k < int (length xs0) \<and> (k < lo \<or> hi < k) \<longrightarrow> ys ! nat k = xs0 ! nat k) \<and>
     (\<lambda>k. ys ! nat k) ` {lo..hi} = (\<lambda>k. xs0 ! nat k) ` {lo..hi} \<and>
     (\<forall>k l. lo \<le> k \<and> k \<le> l \<and> l \<le> hi \<longrightarrow> ys ! nat k \<le> ys ! nat l)"

lemma qs_post_trivial:
  assumes "hi \<le> lo"
  shows "qs_post ys lo hi ys"
proof -
  have "ys ! nat k \<le> ys ! nat l" if "lo \<le> k" "k \<le> l" "l \<le> hi" for k l
  proof -
    from that assms have "k = l" by linarith
    then show ?thesis by simp
  qed
  then show ?thesis unfolding qs_post_def by blast
qed

lemma qs_post_combine:
  assumes pp: "part_post xs0 lo hi a1 p"
    and q1: "qs_post a1 lo (p - 1) a2"
    and q2: "qs_post a2 (p + 1) hi a3"
    and rng: "0 \<le> lo" "hi < int (length xs0)"
  shows "qs_post xs0 lo hi a3"
proof -
  from pp have ms1: "mset a1 = mset xs0" and p: "lo \<le> p" "p \<le> hi"
    and le: "\<And>k. lo \<le> k \<Longrightarrow> k < p \<Longrightarrow> a1 ! nat k \<le> a1 ! nat p"
    and ge: "\<And>k. p < k \<Longrightarrow> k \<le> hi \<Longrightarrow> a1 ! nat p \<le> a1 ! nat k"
    and fr1: "\<And>k. 0 \<le> k \<Longrightarrow> k < int (length xs0) \<Longrightarrow> k < lo \<or> hi < k \<Longrightarrow> a1 ! nat k = xs0 ! nat k"
    and sv1: "(\<lambda>k. a1 ! nat k) ` {lo..hi} = (\<lambda>k. xs0 ! nat k) ` {lo..hi}"
    by (auto simp: part_post_def)
  from q1 have ms2: "mset a2 = mset a1"
    and fr2: "\<And>k. 0 \<le> k \<Longrightarrow> k < int (length a1) \<Longrightarrow> k < lo \<or> p - 1 < k \<Longrightarrow> a2 ! nat k = a1 ! nat k"
    and sv2: "(\<lambda>k. a2 ! nat k) ` {lo..p - 1} = (\<lambda>k. a1 ! nat k) ` {lo..p - 1}"
    and so2: "\<And>k l. lo \<le> k \<Longrightarrow> k \<le> l \<Longrightarrow> l \<le> p - 1 \<Longrightarrow> a2 ! nat k \<le> a2 ! nat l"
    by (auto simp: qs_post_def)
  from q2 have ms3: "mset a3 = mset a2"
    and fr3: "\<And>k. 0 \<le> k \<Longrightarrow> k < int (length a2) \<Longrightarrow> k < p + 1 \<or> hi < k \<Longrightarrow> a3 ! nat k = a2 ! nat k"
    and sv3: "(\<lambda>k. a3 ! nat k) ` {p + 1..hi} = (\<lambda>k. a2 ! nat k) ` {p + 1..hi}"
    and so3: "\<And>k l. p + 1 \<le> k \<Longrightarrow> k \<le> l \<Longrightarrow> l \<le> hi \<Longrightarrow> a3 ! nat k \<le> a3 ! nat l"
    by (auto simp: qs_post_def)
  have len1: "length a1 = length xs0" using ms1 by (rule mset_eq_length)
  have len2: "length a2 = length xs0" using mset_eq_length[OF ms2] len1 by simp
  have left: "a3 ! nat k = a2 ! nat k" if "lo \<le> k" "k \<le> p" for k
    using that fr3[of k] rng p len2 by auto
  have right2: "a2 ! nat k = a1 ! nat k" if "p \<le> k" "k \<le> hi" for k
    using that fr2[of k] rng p len1 by auto
  have L: "(\<lambda>k. a3 ! nat k) ` {lo..p - 1} = (\<lambda>k. a1 ! nat k) ` {lo..p - 1}"
  proof -
    have "(\<lambda>k. a3 ! nat k) ` {lo..p - 1} = (\<lambda>k. a2 ! nat k) ` {lo..p - 1}"
      by (rule image_cong) (auto simp: left)
    then show ?thesis using sv2 by simp
  qed
  have R: "(\<lambda>k. a3 ! nat k) ` {p + 1..hi} = (\<lambda>k. a1 ! nat k) ` {p + 1..hi}"
  proof -
    have "(\<lambda>k. a2 ! nat k) ` {p + 1..hi} = (\<lambda>k. a1 ! nat k) ` {p + 1..hi}"
      by (rule image_cong) (auto simp: right2)
    then show ?thesis using sv3 by simp
  qed
  have M: "a3 ! nat p = a1 ! nat p"
    using left[of p] right2[of p] p by simp
  have split: "{lo..hi} = {lo..p - 1} \<union> {p} \<union> {p + 1..hi}"
    using p by auto
  have sv: "(\<lambda>k. a3 ! nat k) ` {lo..hi} = (\<lambda>k. a1 ! nat k) ` {lo..hi}"
    unfolding split image_Un using L R M by simp
  have lo_le: "a3 ! nat k \<le> a1 ! nat p" if "lo \<le> k" "k < p" for k
  proof -
    have "a3 ! nat k \<in> (\<lambda>k. a3 ! nat k) ` {lo..p - 1}" using that by auto
    then obtain k' where "lo \<le> k'" "k' \<le> p - 1" "a3 ! nat k = a1 ! nat k'"
      unfolding L by auto
    then show ?thesis using le[of k'] by simp
  qed
  have hi_ge: "a1 ! nat p \<le> a3 ! nat k" if "p < k" "k \<le> hi" for k
  proof -
    have "a3 ! nat k \<in> (\<lambda>k. a3 ! nat k) ` {p + 1..hi}" using that by auto
    then obtain k' where "p + 1 \<le> k'" "k' \<le> hi" "a3 ! nat k = a1 ! nat k'"
      unfolding R by auto
    then show ?thesis using ge[of k'] by simp
  qed
  have sorted: "a3 ! nat k \<le> a3 ! nat l" if "lo \<le> k" "k \<le> l" "l \<le> hi" for k l
  proof -
    consider "l < p" | "k < p" "l = p" | "k < p" "p < l" | "k = p" "l = p" | "k = p" "p < l" | "p < k"
      using that by linarith
    then show ?thesis
    proof cases
      case 1
      then show ?thesis using so2[of k l] left[of k] left[of l] that by simp
    next
      case 2
      then show ?thesis using lo_le[of k] M that by simp
    next
      case 3
      then show ?thesis using lo_le[of k] hi_ge[of l] that by simp
    next
      case 4
      then show ?thesis by simp
    next
      case 5
      then show ?thesis using hi_ge[of l] M that by simp
    next
      case 6
      then show ?thesis using so3[of k l] that by simp
    qed
  qed
  have frame: "a3 ! nat k = xs0 ! nat k" if "0 \<le> k" "k < int (length xs0)" "k < lo \<or> hi < k" for k
    using that fr3[of k] fr2[of k] fr1[of k] p len1 len2 by auto
  have "mset a3 = mset xs0" using ms1 ms2 ms3 by simp
  moreover have "(\<lambda>k. a3 ! nat k) ` {lo..hi} = (\<lambda>k. xs0 ! nat k) ` {lo..hi}"
    using sv sv1 by simp
  moreover have "\<forall>k. 0 \<le> k \<and> k < int (length xs0) \<and> (k < lo \<or> hi < k) \<longrightarrow>
      a3 ! nat k = xs0 ! nat k"
    using frame by blast
  moreover have "\<forall>k l. lo \<le> k \<and> k \<le> l \<and> l \<le> hi \<longrightarrow> a3 ! nat k \<le> a3 ! nat l"
    using sorted by blast
  ultimately show ?thesis
    unfolding qs_post_def by blast
qed

lemma inner_quicksort_post:
  "0 \<le> lo \<Longrightarrow> hi < int (length xs0) \<Longrightarrow> mset xs0 = mset data \<Longrightarrow>
     \<exists>ss ys. inner_quicksort lo hi xs0 = (ss, Inr ys) \<and> qs_post xs0 lo hi ys \<and>
       (\<forall>s\<in>set ss. emitted_ok data s)"
proof (induction lo hi xs0 rule: inner_quicksort.induct)
  case (1 lo hi xs0)
  show ?case
  proof (cases "lo < hi")
    case False
    then have "inner_quicksort lo hi xs0 = ([], Inr xs0)"
      by (simp add: inner_quicksort.simps)
    with False show ?thesis by (simp add: qs_post_trivial)
  next
    case True
    from inner_partition_post[of lo hi xs0 data] True "1.prems"
    obtain s1 a1 p where
      pt: "inner_partition lo hi xs0 = (s1, Inr (a1, p))" and
      pp: "part_post xs0 lo hi a1 p" and ok1: "\<forall>s\<in>set s1. emitted_ok data s"
      by auto
    from pp have ms1: "mset a1 = mset xs0" and p: "lo \<le> p" "p \<le> hi"
      by (auto simp: part_post_def)
    have len1: "length a1 = length xs0" using ms1 by (rule mset_eq_length)
    from "1.IH"(1)[OF True pt[symmetric] refl refl] "1.prems" p ms1 len1
    obtain s2 a2 where
      c1: "inner_quicksort lo (p - 1) a1 = (s2, Inr a2)" and
      q1: "qs_post a1 lo (p - 1) a2" and ok2: "\<forall>s\<in>set s2. emitted_ok data s"
      by auto
    from q1 have ms2: "mset a2 = mset a1" by (simp add: qs_post_def)
    have len2: "length a2 = length xs0" using mset_eq_length[OF ms2] len1 by simp
    from "1.IH"(2)[OF True pt[symmetric] refl refl c1[symmetric] refl] "1.prems" p ms1 ms2 len2
    obtain s3 a3 where
      c2: "inner_quicksort (p + 1) hi a2 = (s3, Inr a3)" and
      q2: "qs_post a2 (p + 1) hi a3" and ok3: "\<forall>s\<in>set s3. emitted_ok data s"
      by auto
    have "inner_quicksort lo hi xs0 = (s1 @ s2 @ s3, Inr a3)"
      using True by (subst inner_quicksort.simps) (simp add: pt c1 c2)
    moreover have "qs_post xs0 lo hi a3"
      using qs_post_combine[OF pp q1 q2] "1.prems" by simp
    ultimately show ?thesis using ok1 ok2 ok3 by auto
  qed
qed

lemma quicksort_steps_shape:
  "\<exists>ss. quicksort_steps data = (ss @ [Step (sort data) None None None ''done''], Inr ()) \<and>
     (\<forall>s\<in>set ss. emitted_ok data s)"
proof (cases "data = []")
  case True
  then show ?thesis by (simp add: quicksort_steps_def)
next
  case False
  from inner_quicksort_post[of 0 "int (length data) - 1" data data]
  obtain ss ys where
    run: "inner_quicksort 0 (int (length data) - 1) data = (ss, Inr ys)" and
    post: "qs_post data 0 (int (length data) - 1) ys" and
    ok: "\<forall>s\<in>set ss. emitted_ok data s"
    by auto
  from post have ms: "mset ys = mset data"
    and so: "\<And>k l. 0 \<le> k \<Longrightarrow> k \<le> l \<Longrightarrow> l \<le> int (length data) - 1 \<Longrightarrow> ys ! nat k \<le> ys ! nat l"
    by (simp_all add: qs_post_def)
  have len: "length ys = length data" using ms by (rule mset_eq_length)
  have "sorted ys"
    unfolding sorted_iff_nth_mono
  proof (intro allI impI)
    fix i j assume "i \<le> j" "j < length ys"
    then show "ys ! i \<le> ys ! j" using so[of "int i" "int j"] len by simp
  qed
  with ms have "sort data = ys" by (rule properties_for_sort)
  with run ok False show ?thesis by (simp add: quicksort_steps_def)
qed

lemma quicksort_steps_example:
  "quicksort_steps [30, 10, 20] =
     ([Step [30, 10, 20] None None (Some 2) ''pivot'',
       Step [30, 10, 20] (Some (- 1)) (Some 0) (Some 2) ''compare'',
       Step [30, 10, 20] (Some (- 1)) (Some 1) (Some 2) ''compare'',
       Step [10, 30, 20] (Some 0) (Some 1) (Some 2) ''swap'',
       Step [10, 20, 30] (Some 1) (Some 2) (Some 2) ''partition'',
       Step [10, 20, 30] None None None ''done''],
      Inr ())"
  by code_simp


lemma emitted_ok_not_done: "emitted_ok data s \<Longrightarrow> step_action s \<noteq> ''done''"
  by (auto simp: emitted_ok_def)

lemma quicksort_steps_returns: "snd (quicksort_steps data) = Inr ()"
  using quicksort_steps_shape[of data] by auto

section \<open>Claims about the step generator\<close>

text \<open>
  C1.  For every input list of pairwise-distinct integers, the Step sequence that
  \<open>quicksort_steps\<close> produces is not empty and ends with a Step whose array is the
  ascending sort of the input, and the array of every earlier Step is a permutation of
  the input (it has the input's values, each as often as the input has it).
\<close>

theorem quicksort_steps_sorts:
  assumes "distinct data"
  shows "fst (quicksort_steps data) \<noteq> [] \<and>
         step_array (last (fst (quicksort_steps data))) = sort data \<and>
         (\<forall>s\<in>set (butlast (fst (quicksort_steps data))). mset (step_array s) = mset data)"
proof -
  from quicksort_steps_shape[of data] obtain ss where
    run: "quicksort_steps data = (ss @ [Step (sort data) None None None ''done''], Inr ())" and
    ok: "\<forall>s\<in>set ss. emitted_ok data s"
    by blast
  from ok have "\<forall>s\<in>set ss. mset (step_array s) = mset data"
    by (simp add: emitted_ok_def)
  with run show ?thesis by (simp add: butlast_append)
qed

theorem quicksort_steps_sorts_witness:
  "distinct [30, 10, 20 :: int] \<and>
   fst (quicksort_steps [30, 10, 20]) \<noteq> [] \<and>
   step_array (last (fst (quicksort_steps [30, 10, 20]))) = [10, 20, 30] \<and>
   mset (step_array (butlast (fst (quicksort_steps [30, 10, 20])) ! 3)) = mset [30, 10, 20]"
  using quicksort_steps_sorts[of "[30, 10, 20]"]
  by (simp add: quicksort_steps_example)

text \<open>
  C2.  For every input list, the Step sequence that \<open>quicksort_steps\<close> produces
  contains exactly one Step with the action \<open>done\<close>, and that Step is the last one.
\<close>

theorem quicksort_steps_one_done:
  "length (filter (\<lambda>s. step_action s = ''done'') (fst (quicksort_steps data))) = 1 \<and>
   step_action (last (fst (quicksort_steps data))) = ''done''"
proof -
  from quicksort_steps_shape[of data] obtain ss where
    run: "quicksort_steps data = (ss @ [Step (sort data) None None None ''done''], Inr ())" and
    ok: "\<forall>s\<in>set ss. emitted_ok data s"
    by blast
  from ok have "filter (\<lambda>s. step_action s = ''done'') ss = []"
    by (auto simp: filter_empty_conv dest: emitted_ok_not_done)
  with run show ?thesis by simp
qed

theorem quicksort_steps_one_done_witness:
  "length (filter (\<lambda>s. step_action s = ''done'') (fst (quicksort_steps [30, 10, 20]))) = 1 \<and>
   step_action (fst (quicksort_steps [30, 10, 20]) ! 5) = ''done'' \<and>
   length (fst (quicksort_steps [30, 10, 20])) = 6"
  using quicksort_steps_one_done[of "[30, 10, 20]"]
  by (simp add: quicksort_steps_example)

text \<open>
  C6 (amended).  For every input list and every Step that \<open>quicksort_steps\<close> emits:
  \<open>j\<close> and \<open>pivot_index\<close>, when present, are positions of the Step's array; \<open>i\<close>,
  when present, is below the length of the array and is a position of it, except in a
  \<open>compare\<close> Step, where it may also be \<open>- 1\<close> (the Lomuto boundary \<open>lo - 1\<close> before the
  first element of the range has been placed); and the \<open>done\<close> Step carries no index.
\<close>

theorem step_indices_valid:
  assumes "s \<in> set (fst (quicksort_steps data))"
  shows "(\<forall>b. step_j s = Some b \<longrightarrow> 0 \<le> b \<and> b < int (length (step_array s))) \<and>
         (\<forall>h. step_pivot_index s = Some h \<longrightarrow> 0 \<le> h \<and> h < int (length (step_array s))) \<and>
         (\<forall>a. step_i s = Some a \<longrightarrow>
            a < int (length (step_array s)) \<and>
            (0 \<le> a \<or> a = - 1 \<and> step_action s = ''compare'')) \<and>
         (step_action s = ''done'' \<longrightarrow>
            step_i s = None \<and> step_j s = None \<and> step_pivot_index s = None)"
proof -
  from quicksort_steps_shape[of data] obtain ss where
    run: "quicksort_steps data = (ss @ [Step (sort data) None None None ''done''], Inr ())" and
    ok: "\<forall>s\<in>set ss. emitted_ok data s"
    by blast
  from assms run consider "s = Step (sort data) None None None ''done''" | "s \<in> set ss"
    by auto
  then show ?thesis
  proof cases
    case 1
    then show ?thesis by simp
  next
    case 2
    with ok have e: "emitted_ok data s" by blast
    then have "mset (step_array s) = mset data" by (simp add: emitted_ok_def)
    then have len: "length (step_array s) = length data" by (rule mset_eq_length)
    from e len show ?thesis
      unfolding emitted_ok_def by (elim conjE exE disjE) auto
  qed
qed

theorem step_indices_valid_witness:
  "Step [10, 30, 20] (Some 0) (Some 1) (Some 2) ''swap'' \<in> set (fst (quicksort_steps [30, 10, 20])) \<and>
   (0::int) \<le> 1 \<and> (1::int) < int (length [10, 30, 20 :: int]) \<and>
   (0::int) \<le> 2 \<and> (2::int) < int (length [10, 30, 20 :: int]) \<and>
   (0::int) \<le> 0 \<and> (0::int) < int (length [10, 30, 20 :: int])"
  using step_indices_valid[of "Step [10, 30, 20] (Some 0) (Some 1) (Some 2) ''swap''" "[30, 10, 20]"]
  by (simp add: quicksort_steps_example)

text \<open>
  The claim as it was stated asks for \<open>0 \<le> i\<close> in every Step.  On the input
  \<open>[30, 10, 20]\<close> the second Step is the first comparison, with \<open>i = - 1\<close>.
\<close>

theorem compare_step_index_counterexample:
  "fst (quicksort_steps [30, 10, 20]) ! 1 =
     Step [30, 10, 20] (Some (- 1)) (Some 0) (Some 2) ''compare'' \<and>
   \<not> (0 \<le> the (step_i (fst (quicksort_steps [30, 10, 20]) ! 1)))"
  by (simp add: quicksort_steps_example)

text \<open>
  C8.  For an input list of length 0 or 1, \<open>quicksort_steps\<close> emits exactly one Step,
  the \<open>done\<close> Step with the input as its array, and returns without an error.
\<close>

theorem quicksort_steps_degenerate:
  assumes "length data \<le> 1"
  shows "quicksort_steps data = ([Step data None None None ''done''], Inr ())"
proof (cases "data = []")
  case True
  then show ?thesis by (simp add: quicksort_steps_def)
next
  case False
  with assms have "int (length data) - 1 = 0"
    by (cases data) auto
  with False show ?thesis
    by (simp add: quicksort_steps_def inner_quicksort.simps)
qed

theorem quicksort_steps_degenerate_witness:
  "length ([] :: int list) \<le> 1 \<and> length [7 :: int] \<le> 1 \<and>
   quicksort_steps [] = ([Step [] None None None ''done''], Inr ()) \<and>
   quicksort_steps [7] = ([Step [7] None None None ''done''], Inr ())"
  using quicksort_steps_degenerate[of "[]"] quicksort_steps_degenerate[of "[7]"]
  by simp


text \<open>
  C7.  Within a partition pass a \<open>swap\<close> Step is emitted only when two distinct
  positions were exchanged.  In one iteration of the loop over \<open>j\<close>, a \<open>swap\<close> Step
  comes only with \<open>i + 1 \<noteq> j\<close>, and its array is the working array after the
  exchange of the positions \<open>i + 1\<close> and \<open>j\<close>; when the boundary index after its
  increment equals \<open>j\<close>, the iteration emits no \<open>swap\<close> Step; and every \<open>swap\<close> Step
  of \<open>quicksort_steps\<close> names two distinct positions \<open>i < j\<close> of its array.
\<close>

theorem swap_only_on_exchange:
  "(s \<in> set (fst (partition_iter pivot hi j (ys, i))) \<and> step_action s = ''swap'' \<longrightarrow>
      i + 1 \<noteq> j \<and> step_i s = Some (i + 1) \<and> step_j s = Some j \<and>
      py_swap ys (i + 1) j = Inr (step_array s)) \<and>
   (i + 1 = j \<longrightarrow>
      (\<forall>s'\<in>set (fst (partition_iter pivot hi j (ys, i))). step_action s' \<noteq> ''swap'')) \<and>
   (t \<in> set (fst (quicksort_steps data)) \<and> step_action t = ''swap'' \<longrightarrow>
      (\<exists>a b. step_i t = Some a \<and> step_j t = Some b \<and>
         0 \<le> a \<and> a < b \<and> b < int (length (step_array t))))"
proof -
  have A: "i + 1 \<noteq> j \<and> step_i s = Some (i + 1) \<and> step_j s = Some j \<and>
      py_swap ys (i + 1) j = Inr (step_array s)"
    if "s \<in> set (fst (partition_iter pivot hi j (ys, i))) \<and> step_action s = ''swap''"
    using that by (auto simp: partition_iter_def Let_def split: sum.splits if_splits)
  have B: "\<forall>s'\<in>set (fst (partition_iter pivot hi j (ys, i))). step_action s' \<noteq> ''swap''"
    if "i + 1 = j"
    using that by (auto simp: partition_iter_def Let_def split: sum.splits if_splits)
  have C: "\<exists>a b. step_i t = Some a \<and> step_j t = Some b \<and>
         0 \<le> a \<and> a < b \<and> b < int (length (step_array t))"
    if t: "t \<in> set (fst (quicksort_steps data)) \<and> step_action t = ''swap''"
  proof -
    from quicksort_steps_shape[of data] obtain ss where
      run: "quicksort_steps data = (ss @ [Step (sort data) None None None ''done''], Inr ())" and
      ok: "\<forall>s\<in>set ss. emitted_ok data s"
      by blast
    from t run have "t \<in> set ss" by auto
    with ok have e: "emitted_ok data t" by blast
    then have "mset (step_array t) = mset data" by (simp add: emitted_ok_def)
    then have len: "length (step_array t) = length data" by (rule mset_eq_length)
    from e t len show ?thesis
      unfolding emitted_ok_def by (elim conjE exE disjE) auto
  qed
  from A B C show ?thesis by blast
qed

theorem swap_only_on_exchange_witness:
  "Step [10, 30, 20] (Some 0) (Some 1) (Some 2) ''swap''
     \<in> set (fst (partition_iter 20 2 1 ([30, 10, 20], - 1))) \<and>
   py_swap [30, 10, 20 :: int] 0 1 = Inr [10, 30, 20] \<and>
   fst (partition_iter 20 2 0 ([10, 30, 20], - 1)) =
     [Step [10, 30, 20] (Some (- 1)) (Some 0) (Some 2) ''compare''] \<and>
   Step [10, 30, 20] (Some 0) (Some 1) (Some 2) ''swap'' \<in> set (fst (quicksort_steps [30, 10, 20]))"
  using swap_only_on_exchange[of "Step [10, 30, 20] (Some 0) (Some 1) (Some 2) ''swap''"
      20 2 1 "[30, 10, 20]" "- 1" "Step [10, 30, 20] (Some 0) (Some 1) (Some 2) ''swap''" "[30, 10, 20]"]
  by (simp add: quicksort_steps_example partition_iter_def py_swap_def py_get_def py_set_def
      py_index_def)

end
